theory Spec2Isabelle
  imports Main
begin

text \<open>
  A model of the query normaliser of \<^verbatim>\<open>src/dataset_generation/claude_query_executor.py\<close>:
  \<^verbatim>\<open>validate_and_fix_query\<close>, \<^verbatim>\<open>normalize_field_names\<close> (with its inner
  \<^verbatim>\<open>convert_to_snake_case\<close> and \<^verbatim>\<open>fix_fields\<close>), \<^verbatim>\<open>is_valid_query_structure\<close>
  and the part of \<^verbatim>\<open>generate_query\<close> that runs on the parsed response.

  Modelling decisions.
  \<^item> A parsed JSON value is the datatype \<open>json\<close>. A Python \<^verbatim>\<open>dict\<close> is an association
    list in insertion order; a Python dict has pairwise distinct keys, which the
    predicate \<open>wf_json\<close> records. The assignment \<^verbatim>\<open>d[k] = v\<close> is \<open>dict_set\<close>: an
    existing key keeps its position and gets the new value, a new key is appended.
  \<^item> Strings are lists of 8-bit characters and \<^verbatim>\<open>str.lower\<close> is modelled on the ASCII
    letters only, so the model speaks about ASCII text; the character classes
    \<^verbatim>\<open>[A-Z]\<close>, \<^verbatim>\<open>[a-z]\<close>, \<^verbatim>\<open>[a-z0-9]\<close> of the two patterns are code ranges.
  \<^item> A float is carried by the literal it was read from; no modelled function looks
    inside a number.
  \<^item> A raised exception is the \<open>Inl\<close> of a sum.
\<close>

section \<open>Query payloads\<close>

datatype json =
    JNull
  | JBool bool
  | JInt int
  | JFloat string
  | JStr string
  | JList "json list"
  | JDict "(string \<times> json) list"

datatype error = ValueError string | Exception string

fun is_list :: "json \<Rightarrow> bool" where
  "is_list (JList xs) = True"
| "is_list _ = False"

fun is_dict :: "json \<Rightarrow> bool" where
  "is_dict (JDict kvs) = True"
| "is_dict _ = False"

fun is_bool :: "json \<Rightarrow> bool" where
  "is_bool (JBool b) = True"
| "is_bool _ = False"

text \<open>\<^verbatim>\<open>k in d\<close> and \<^verbatim>\<open>d[k] = v\<close> on a dict held in insertion order.\<close>

definition has_key :: "string \<Rightarrow> (string \<times> json) list \<Rightarrow> bool" where
  "has_key k kvs = (k \<in> set (map fst kvs))"

fun dict_set :: "(string \<times> json) list \<Rightarrow> string \<Rightarrow> json \<Rightarrow> (string \<times> json) list" where
  "dict_set [] k v = [(k, v)]"
| "dict_set ((k', v') # kvs) k v =
     (if k' = k then (k', v) # kvs else (k', v') # dict_set kvs k v)"

text \<open>The keys of every dict of a tree are pairwise distinct, as in Python.\<close>

fun wf_json :: "json \<Rightarrow> bool" where
  "wf_json (JDict kvs) = (distinct (map fst kvs) \<and> (\<forall>(k, v) \<in> set kvs. wf_json v))"
| "wf_json (JList xs) = (\<forall>x \<in> set xs. wf_json x)"
| "wf_json _ = True"

section \<open>Shape correction\<close>

text \<open>
  \<^verbatim>\<open>
  def validate_and_fix_query(self, query):
      if isinstance(query, list):
          return {"aggregate": True, "pipeline": query}
      if isinstance(query, dict):
          if "$match" in query or "$group" in query or "$sort" in query:
              return {"aggregate": True, "pipeline": [query]}
          if "aggregate" in query and "pipeline" in query:
              return query
          return query
      raise ValueError("Query format not recognized")
  \<close>
\<close>

definition InvalidQueryFormat :: error where
  "InvalidQueryFormat = ValueError ''Query format not recognized''"

fun validate_and_fix_query :: "json \<Rightarrow> error + json" where
  "validate_and_fix_query (JList query) =
     Inr (JDict [(''aggregate'', JBool True), (''pipeline'', JList query)])"
| "validate_and_fix_query (JDict query) =
     (if has_key ''$match'' query \<or> has_key ''$group'' query \<or> has_key ''$sort'' query
      then Inr (JDict [(''aggregate'', JBool True), (''pipeline'', JList [JDict query])])
      else if has_key ''aggregate'' query \<and> has_key ''pipeline'' query
      then Inr (JDict query)
      else Inr (JDict query))"
| "validate_and_fix_query _ = Inl InvalidQueryFormat"

section \<open>Field names\<close>

text \<open>\<^verbatim>\<open>s.startswith('$')\<close>\<close>

definition startswith_sigil :: "string \<Rightarrow> bool" where
  "startswith_sigil s = (case s of [] \<Rightarrow> False | c # _ \<Rightarrow> c = CHR ''$'')"

definition is_upper :: "char \<Rightarrow> bool" where
  "is_upper c = (65 \<le> (of_char c :: nat) \<and> (of_char c :: nat) \<le> 90)"

definition is_lower :: "char \<Rightarrow> bool" where
  "is_lower c = (97 \<le> (of_char c :: nat) \<and> (of_char c :: nat) \<le> 122)"

definition is_digit :: "char \<Rightarrow> bool" where
  "is_digit c = (48 \<le> (of_char c :: nat) \<and> (of_char c :: nat) \<le> 57)"

definition lower_char :: "char \<Rightarrow> char" where
  "lower_char c = (if is_upper c then char_of ((of_char c :: nat) + 32) else c)"

definition lower :: "string \<Rightarrow> string" where
  "lower s = map lower_char s"

text \<open>
  \<^verbatim>\<open>re.sub('(.)([A-Z][a-z]+)', r'\1_\2', text)\<close>: the scan goes from left to right
  over non-overlapping matches. A match at the current position is one character other
  than a newline, one upper-case letter and the longest non-empty run of lower-case
  letters; it is rewritten with an underscore after its first character and the scan
  resumes behind it. Where there is no match the character is copied.
\<close>

function sub_word_run :: "string \<Rightarrow> string" where
  "sub_word_run [] = []"
| "sub_word_run [c] = [c]"
| "sub_word_run (c # u # rest) =
     (if c \<noteq> CHR 0x0A \<and> is_upper u \<and> takeWhile is_lower rest \<noteq> []
      then c # CHR ''_'' # u # takeWhile is_lower rest @ sub_word_run (dropWhile is_lower rest)
      else c # sub_word_run (u # rest))"
  by pat_completeness auto
termination
  by (relation "measure length") (auto simp: length_dropWhile_le less_Suc_eq_le le_SucI)

text \<open>\<^verbatim>\<open>re.sub('([a-z0-9])([A-Z])', r'\1_\2', s1)\<close>, scanned the same way.\<close>

fun sub_lower_upper :: "string \<Rightarrow> string" where
  "sub_lower_upper [] = []"
| "sub_lower_upper [c] = [c]"
| "sub_lower_upper (c # u # rest) =
     (if (is_lower c \<or> is_digit c) \<and> is_upper u
      then c # CHR ''_'' # u # sub_lower_upper rest
      else c # sub_lower_upper (u # rest))"

text \<open>
  \<^verbatim>\<open>
  def convert_to_snake_case(text):
      s1 = re.sub('(.)([A-Z][a-z]+)', r'\1_\2', text)
      return re.sub('([a-z0-9])([A-Z])', r'\1_\2', s1).lower()
  \<close>
\<close>

definition convert_to_snake_case :: "string \<Rightarrow> string" where
  "convert_to_snake_case text = lower (sub_lower_upper (sub_word_run text))"

text \<open>The dict literal \<^verbatim>\<open>field_mappings\<close>, in the order of the source.\<close>

definition field_mappings_items :: "(string \<times> string) list" where
  "field_mappings_items =
     [(''creationDate'', ''creation_date''),
      (''purchaseDate'', ''purchase_date''),
      (''fiscalYear'', ''fiscal_year''),
      (''lpaNumber'', ''lpa_number''),
      (''purchaseOrderNumber'', ''purchase_order_number''),
      (''requisitionNumber'', ''requisition_number''),
      (''acquisitionType'', ''acquisition_type''),
      (''subAcquisitionType'', ''sub_acquisition_type''),
      (''acquisitionMethod'', ''acquisition_method''),
      (''subAcquisitionMethod'', ''sub_acquisition_method''),
      (''departmentName'', ''department_name''),
      (''supplierCode'', ''supplier_code''),
      (''supplierName'', ''supplier_name''),
      (''supplierQualifications'', ''supplier_qualifications''),
      (''supplierZipCode'', ''supplier_zip_code''),
      (''itemName'', ''item_name''),
      (''itemDescription'', ''item_description''),
      (''unitPrice'', ''unit_price''),
      (''totalPrice'', ''total_price''),
      (''classificationCodes'', ''classification_codes''),
      (''normalizedUnspsc'', ''normalized_unspsc''),
      (''commodityTitle'', ''commodity_title''),
      (''classTitle'', ''class_title''),
      (''familyTitle'', ''family_title''),
      (''segmentTitle'', ''segment_title'')]"

definition field_mappings :: "string \<rightharpoonup> string" where
  "field_mappings = map_of field_mappings_items"

text \<open>\<^verbatim>\<open>field_mappings.get(name, convert_to_snake_case(name))\<close>\<close>

definition get_mapping :: "string \<Rightarrow> string" where
  "get_mapping name =
     (case field_mappings name of Some canonical \<Rightarrow> canonical
      | None \<Rightarrow> convert_to_snake_case name)"

text \<open>
  The two steps of the loop body of \<^verbatim>\<open>fix_fields\<close>:
  \<^verbatim>\<open>
  if key.startswith('$'):
      new_key = key
  else:
      new_key = field_mappings.get(key, convert_to_snake_case(key))

  if isinstance(value, str) and value.startswith('$'):
      value = field_mappings.get(value[1:], convert_to_snake_case(value[1:]))
      value = f"${value}"
  \<close>
\<close>

definition new_key :: "string \<Rightarrow> string" where
  "new_key key = (if startswith_sigil key then key else get_mapping key)"

definition fix_ref :: "json \<Rightarrow> json" where
  "fix_ref v =
     (case v of
        JStr s \<Rightarrow> if startswith_sigil s then JStr (CHR ''$'' # get_mapping (tl s)) else v
      | _ \<Rightarrow> v)"

lemma size_fix_ref: "size (fix_ref v) = size v"
  by (cases v) (simp_all add: fix_ref_def)

lemma size_in_dict:
  "(k, v) \<in> set kvs \<Longrightarrow> size v < Suc (size_list (size_prod (\<lambda>x. 0) size) kvs)"
  by (induction kvs) auto

lemma size_in_list: "(x::json) \<in> set xs \<Longrightarrow> size x < Suc (size_list size xs)"
  by (induction xs) auto

text \<open>
  \<^verbatim>\<open>
  def fix_fields(obj):
      if isinstance(obj, dict):
          new_dict = {}
          for key, value in obj.items():
              ...                                  # new_key, value as above
              new_dict[new_key] = fix_fields(value)
          return new_dict
      elif isinstance(obj, list):
          return [fix_fields(item) for item in obj]
      return obj
  \<close>
\<close>

function fix_fields :: "json \<Rightarrow> json" where
  "fix_fields (JDict kvs) =
     JDict (fold (\<lambda>(key, v) new_dict. dict_set new_dict (new_key key) (fix_fields (fix_ref v)))
              kvs [])"
| "fix_fields (JList xs) = JList (map fix_fields xs)"
| "fix_fields JNull = JNull"
| "fix_fields (JBool b) = JBool b"
| "fix_fields (JInt i) = JInt i"
| "fix_fields (JFloat f) = JFloat f"
| "fix_fields (JStr s) = JStr s"
  by pat_completeness auto
termination
  by (relation "measure size") (auto simp: size_fix_ref size_in_dict size_in_list)

definition normalize_field_names :: "json \<Rightarrow> json" where
  "normalize_field_names query = fix_fields query"

section \<open>Validation and the composite\<close>

text \<open>
  \<^verbatim>\<open>
  def is_valid_query_structure(self, query):
      if not isinstance(query, dict):
          return False
      if "aggregate" in query:
          return (isinstance(query["aggregate"], bool) and
                  "pipeline" in query and
                  isinstance(query["pipeline"], list))
      return True
  \<close>
\<close>

fun is_valid_query_structure :: "json \<Rightarrow> bool" where
  "is_valid_query_structure (JDict query) =
     (if has_key ''aggregate'' query
      then (case map_of query ''aggregate'' of
              Some a \<Rightarrow> is_bool a \<and> has_key ''pipeline'' query \<and>
                (case map_of query ''pipeline'' of Some p \<Rightarrow> is_list p | None \<Rightarrow> False)
            | None \<Rightarrow> False)
      else True)"
| "is_valid_query_structure _ = False"

text \<open>
  The steps of \<^verbatim>\<open>generate_query\<close> that follow \<^verbatim>\<open>json.loads\<close>, on the parsed
  response. They run inside \<^verbatim>\<open>try\<close>, and the handler
  \<^verbatim>\<open>except Exception as e: raise Exception(f"Error generating query: {str(e)}")\<close>
  re-raises whatever they raise.
  \<^verbatim>\<open>
  query = self.validate_and_fix_query(query)
  query = self.normalize_field_names(query)
  if not self.is_valid_query_structure(query):
      raise ValueError("Invalid query structure after fixes")
  return query
  \<close>
\<close>

fun str_of_error :: "error \<Rightarrow> string" where
  "str_of_error (ValueError msg) = msg"
| "str_of_error (Exception msg) = msg"

definition generate_query_body :: "json \<Rightarrow> error + json" where
  "generate_query_body parsed =
     (case validate_and_fix_query parsed of
        Inl e \<Rightarrow> Inl e
      | Inr fixed \<Rightarrow>
          (let query = normalize_field_names fixed
           in if \<not> is_valid_query_structure query
              then Inl (ValueError ''Invalid query structure after fixes'')
              else Inr query))"

definition generate_query :: "json \<Rightarrow> error + json" where
  "generate_query parsed =
     (case generate_query_body parsed of
        Inl e \<Rightarrow> Inl (Exception (''Error generating query: '' @ str_of_error e))
      | Inr query \<Rightarrow> Inr query)"

text \<open>The error of the composite when the final validation fails, as the caller sees it.\<close>

definition InvalidQueryStructure :: error where
  "InvalidQueryStructure =
     Exception ''Error generating query: Invalid query structure after fixes''"

section \<open>Vocabulary of the properties\<close>

definition no_upper :: "string \<Rightarrow> bool" where
  "no_upper s = list_all (\<lambda>c. \<not> is_upper c) s"

text \<open>
  Snake case in its weakest reading: lower-case letters, digits and underscores only. A
  word character is a letter, a digit or an underscore. \<open>all_keys P t\<close> says that \<open>P\<close>
  holds of every key of every map of the tree \<open>t\<close>.
\<close>

definition is_word_char :: "char \<Rightarrow> bool" where
  "is_word_char c = (is_upper c \<or> is_lower c \<or> is_digit c \<or> c = CHR ''_'')"

definition is_snake_case :: "string \<Rightarrow> bool" where
  "is_snake_case s = list_all (\<lambda>c. is_lower c \<or> is_digit c \<or> c = CHR ''_'') s"

fun all_keys :: "(string \<Rightarrow> bool) \<Rightarrow> json \<Rightarrow> bool" where
  "all_keys P (JDict kvs) = (\<forall>(k, v) \<in> set kvs. P k \<and> all_keys P v)"
| "all_keys P (JList xs) = (\<forall>x \<in> set xs. all_keys P x)"
| "all_keys P _ = True"

text \<open>
  A position in a tree is a path from the root: the key taken in a map, or the index
  taken in a sequence. \<open>walk t p\<close> is the subtree at \<open>p\<close>, if there is one. Renaming
  moves a position to \<open>map renamed_step p\<close>.
\<close>

datatype step = Key string | Index nat

fun child :: "json \<Rightarrow> step \<Rightarrow> json option" where
  "child (JDict kvs) (Key k) = map_of kvs k"
| "child (JList xs) (Index i) = (if i < length xs then Some (xs ! i) else None)"
| "child _ _ = None"

fun walk :: "json \<Rightarrow> step list \<Rightarrow> json option" where
  "walk t [] = Some t"
| "walk t (s # p) = (case child t s of None \<Rightarrow> None | Some t' \<Rightarrow> walk t' p)"

fun renamed_step :: "step \<Rightarrow> step" where
  "renamed_step (Key k) = Key (new_key k)"
| "renamed_step (Index i) = Index i"

text \<open>
  A key of a map is unshadowed when no key that comes after it in the same map is
  renamed to the same name; a path is clear when every key on it is.
\<close>

fun keys_after :: "string \<Rightarrow> (string \<times> json) list \<Rightarrow> string list" where
  "keys_after k [] = []"
| "keys_after k ((k', v) # kvs) = (if k' = k then map fst kvs else keys_after k kvs)"

fun unshadowed :: "json \<Rightarrow> step \<Rightarrow> bool" where
  "unshadowed (JDict kvs) (Key k) = (\<forall>k' \<in> set (keys_after k kvs). new_key k' \<noteq> new_key k)"
| "unshadowed _ _ = True"

fun clear_path :: "json \<Rightarrow> step list \<Rightarrow> bool" where
  "clear_path t [] = True"
| "clear_path t (s # p) =
     (unshadowed t s \<and> (case child t s of None \<Rightarrow> True | Some t' \<Rightarrow> clear_path t' p))"

text \<open>
  The generic conversion in the words of its description: an underscore goes before
  each upper-case letter that follows a lower-case letter or a digit, or that starts a
  new capitalised word run, and then the whole string is lower-cased. A letter starts a
  new word run when it is not the first character and a lower-case letter follows it.
  \<open>insert_before due prev s\<close> walks \<open>s\<close> with the character before the current one
  in \<open>prev\<close> and puts an underscore before each character for which \<open>due\<close> holds.
\<close>

fun insert_before :: "(char option \<Rightarrow> char \<Rightarrow> string \<Rightarrow> bool) \<Rightarrow> char option \<Rightarrow> string \<Rightarrow> string" where
  "insert_before due prev [] = []"
| "insert_before due prev (c # rest) =
     (if due prev c rest then [CHR ''_'', c] else [c]) @ insert_before due (Some c) rest"

definition follows_lower_or_digit :: "char option \<Rightarrow> char \<Rightarrow> string \<Rightarrow> bool" where
  "follows_lower_or_digit prev c rest =
     (is_upper c \<and> (case prev of None \<Rightarrow> False | Some p \<Rightarrow> is_lower p \<or> is_digit p))"

definition starts_word_run :: "char option \<Rightarrow> char \<Rightarrow> string \<Rightarrow> bool" where
  "starts_word_run prev c rest =
     (is_upper c \<and> prev \<noteq> None \<and> (case rest of [] \<Rightarrow> False | n # _ \<Rightarrow> is_lower n))"

definition worded_underscore_due :: "char option \<Rightarrow> char \<Rightarrow> string \<Rightarrow> bool" where
  "worded_underscore_due prev c rest =
     (follows_lower_or_digit prev c rest \<or> starts_word_run prev c rest)"

definition worded_conversion :: "string \<Rightarrow> string" where
  "worded_conversion text = lower (insert_before worded_underscore_due None text)"

text \<open>
  The same rule with one exception: a letter that comes right after a line break does
  not start a word run. \<open>resolved_name\<close> is the rule for a key as a whole: a key with
  the sigil is kept, a key of the table takes its entry there, and every other key is
  converted; \<open>resolved_step\<close> applies it to the key of a step.
\<close>

definition underscore_due :: "char option \<Rightarrow> char \<Rightarrow> string \<Rightarrow> bool" where
  "underscore_due prev c rest =
     (follows_lower_or_digit prev c rest \<or>
      starts_word_run prev c rest \<and> prev \<noteq> Some (CHR 0x0A))"

definition generic_conversion :: "string \<Rightarrow> string" where
  "generic_conversion text = lower (insert_before underscore_due None text)"

definition resolved_name :: "string \<Rightarrow> string" where
  "resolved_name key =
     (if startswith_sigil key then key
      else case field_mappings key of
             Some canonical \<Rightarrow> canonical
           | None \<Rightarrow> generic_conversion key)"

fun resolved_step :: "step \<Rightarrow> step" where
  "resolved_step (Key k) = Key (resolved_name k)"
| "resolved_step (Index i) = Index i"

section \<open>Shape correction and validation: the rules\<close>

text \<open>
  C1. Shape correction applies its rules in order, the first match winning: a sequence is
  wrapped as the pipeline of an aggregate; a map with one of the keys \<open>$match\<close>,
  \<open>$group\<close>, \<open>$sort\<close> is wrapped as a single-stage pipeline, whatever other keys it
  has (also \<open>aggregate\<close> and \<open>pipeline\<close>); every other map, with or without the keys
  \<open>aggregate\<close> and \<open>pipeline\<close>, is returned unchanged; a value that is neither a map nor
  a sequence fails with \<open>InvalidQueryFormat\<close>.
\<close>

theorem validate_and_fix_query_rules:
  "(\<forall>xs. q = JList xs \<longrightarrow>
      validate_and_fix_query q =
        Inr (JDict [(''aggregate'', JBool True), (''pipeline'', JList xs)])) \<and>
   (\<forall>kvs. q = JDict kvs \<and>
        (has_key ''$match'' kvs \<or> has_key ''$group'' kvs \<or> has_key ''$sort'' kvs) \<longrightarrow>
      validate_and_fix_query q =
        Inr (JDict [(''aggregate'', JBool True), (''pipeline'', JList [q])])) \<and>
   (\<forall>kvs. q = JDict kvs \<and>
        \<not> (has_key ''$match'' kvs \<or> has_key ''$group'' kvs \<or> has_key ''$sort'' kvs) \<longrightarrow>
      validate_and_fix_query q = Inr q) \<and>
   (\<not> is_dict q \<and> \<not> is_list q \<longrightarrow> validate_and_fix_query q = Inl InvalidQueryFormat)"
  by (cases q) simp_all

theorem validate_and_fix_query_rules_witness:
  "validate_and_fix_query (JList [JDict [(''$match'', JDict [])]]) =
     Inr (JDict [(''aggregate'', JBool True),
                 (''pipeline'', JList [JDict [(''$match'', JDict [])]])]) \<and>
   validate_and_fix_query
       (JDict [(''aggregate'', JBool False), (''pipeline'', JList []), (''$sort'', JDict [])]) =
     Inr (JDict [(''aggregate'', JBool True), (''pipeline'',
       JList [JDict [(''aggregate'', JBool False), (''pipeline'', JList []),
                     (''$sort'', JDict [])]])]) \<and>
   validate_and_fix_query (JDict [(''aggregate'', JBool True), (''pipeline'', JList [])]) =
     Inr (JDict [(''aggregate'', JBool True), (''pipeline'', JList [])]) \<and>
   validate_and_fix_query (JDict [(''departmentName'', JStr ''Water Resources'')]) =
     Inr (JDict [(''departmentName'', JStr ''Water Resources'')]) \<and>
   validate_and_fix_query (JStr ''just a string'') = Inl InvalidQueryFormat \<and>
   validate_and_fix_query (JInt 3) = Inl InvalidQueryFormat \<and>
   validate_and_fix_query (JBool True) = Inl InvalidQueryFormat \<and>
   validate_and_fix_query JNull = Inl InvalidQueryFormat"
  using validate_and_fix_query_rules [of "JList [JDict [(''$match'', JDict [])]]"]
    validate_and_fix_query_rules
      [of "JDict [(''aggregate'', JBool False), (''pipeline'', JList []), (''$sort'', JDict [])]"]
    validate_and_fix_query_rules [of "JDict [(''aggregate'', JBool True), (''pipeline'', JList [])]"]
    validate_and_fix_query_rules [of "JDict [(''departmentName'', JStr ''Water Resources'')]"]
    validate_and_fix_query_rules [of "JStr ''just a string''"]
    validate_and_fix_query_rules [of "JInt 3"]
    validate_and_fix_query_rules [of "JBool True"]
    validate_and_fix_query_rules [of JNull]
  by (simp add: has_key_def)

text \<open>
  C2. The composite fails with \<open>InvalidQueryStructure\<close> exactly when shape correction
  succeeds and the validation of the renamed result returns false. The witness is the
  input \<open>{"aggregate": "yes", "pipeline": []}\<close>: shape correction returns it unchanged
  and the composite fails with \<open>InvalidQueryStructure\<close>.
\<close>

theorem generate_query_invalid_structure:
  "generate_query q = Inl InvalidQueryStructure \<longleftrightarrow>
     (\<exists>fixed. validate_and_fix_query q = Inr fixed \<and>
        \<not> is_valid_query_structure (normalize_field_names fixed))"
  by (cases q)
    (auto simp: generate_query_def generate_query_body_def InvalidQueryStructure_def
      InvalidQueryFormat_def Let_def)

theorem generate_query_invalid_structure_witness:
  "validate_and_fix_query (JDict [(''aggregate'', JStr ''yes''), (''pipeline'', JList [])]) =
     Inr (JDict [(''aggregate'', JStr ''yes''), (''pipeline'', JList [])]) \<and>
   \<not> is_valid_query_structure
       (normalize_field_names (JDict [(''aggregate'', JStr ''yes''), (''pipeline'', JList [])])) \<and>
   generate_query (JDict [(''aggregate'', JStr ''yes''), (''pipeline'', JList [])]) =
     Inl InvalidQueryStructure"
proof -
  let ?q = "JDict [(''aggregate'', JStr ''yes''), (''pipeline'', JList [])]"
  have fixed: "validate_and_fix_query ?q = Inr ?q"
    by (simp add: has_key_def)
  have invalid: "\<not> is_valid_query_structure (normalize_field_names ?q)"
    by code_simp
  from fixed invalid generate_query_invalid_structure [of ?q]
  show ?thesis by simp
qed

text \<open>
  C3. Validation rejects whatever is not a map; a map with the key \<open>aggregate\<close> is valid
  exactly when the value there is a boolean and the map has the key \<open>pipeline\<close> with a
  sequence as its value; a map without the key \<open>aggregate\<close> is valid.
\<close>

theorem is_valid_query_structure_cases:
  "(\<not> is_dict q \<longrightarrow> \<not> is_valid_query_structure q) \<and>
   (\<forall>kvs. q = JDict kvs \<and> has_key ''aggregate'' kvs \<longrightarrow>
      is_valid_query_structure q =
        ((\<exists>b. map_of kvs ''aggregate'' = Some (JBool b)) \<and> has_key ''pipeline'' kvs \<and>
         (\<exists>xs. map_of kvs ''pipeline'' = Some (JList xs)))) \<and>
   (\<forall>kvs. q = JDict kvs \<and> \<not> has_key ''aggregate'' kvs \<longrightarrow> is_valid_query_structure q)"
proof -
  have bool_iff: "is_bool a \<longleftrightarrow> (\<exists>b. a = JBool b)" for a
    by (cases a) simp_all
  have list_iff: "is_list a \<longleftrightarrow> (\<exists>xs. a = JList xs)" for a
    by (cases a) simp_all
  show ?thesis
    by (cases q) (auto simp: bool_iff list_iff has_key_def split: option.splits)
qed

theorem is_valid_query_structure_cases_witness:
  "\<not> is_valid_query_structure (JList []) \<and>
   is_valid_query_structure (JDict [(''aggregate'', JBool False), (''pipeline'', JList [])]) \<and>
   \<not> is_valid_query_structure (JDict [(''aggregate'', JInt 1), (''pipeline'', JList [])]) \<and>
   \<not> is_valid_query_structure (JDict [(''aggregate'', JBool True)]) \<and>
   \<not> is_valid_query_structure (JDict [(''aggregate'', JBool True), (''pipeline'', JDict [])]) \<and>
   is_valid_query_structure (JDict [(''pipeline'', JInt 0)])"
  using is_valid_query_structure_cases [of "JList []"]
    is_valid_query_structure_cases
      [of "JDict [(''aggregate'', JBool False), (''pipeline'', JList [])]"]
    is_valid_query_structure_cases
      [of "JDict [(''aggregate'', JInt 1), (''pipeline'', JList [])]"]
    is_valid_query_structure_cases [of "JDict [(''aggregate'', JBool True)]"]
    is_valid_query_structure_cases
      [of "JDict [(''aggregate'', JBool True), (''pipeline'', JDict [])]"]
    is_valid_query_structure_cases [of "JDict [(''pipeline'', JInt 0)]"]
  by (simp add: has_key_def)

text \<open>
  C5, as stated: a map with any pipeline-stage key, for instance one whose only key is
  \<open>$project\<close>, is wrapped as a single-stage pipeline. The code returns that map
  unchanged.
\<close>

theorem wrap_any_stage_counterexample:
  "validate_and_fix_query (JDict [(''$project'', JDict [(''departmentName'', JInt 1)])]) \<noteq>
     Inr (JDict [(''aggregate'', JBool True),
                 (''pipeline'', JList [JDict [(''$project'', JDict [(''departmentName'', JInt 1)])]])])"
  by (simp add: has_key_def)

text \<open>
  C5, amended: a map is wrapped as a single-stage pipeline exactly when it has one of
  the keys \<open>$match\<close>, \<open>$group\<close>, \<open>$sort\<close>; a map with none of the three, whatever other
  stage keys it has, is returned unchanged.
\<close>

theorem wrap_three_stages_only:
  "((has_key ''$match'' kvs \<or> has_key ''$group'' kvs \<or> has_key ''$sort'' kvs) \<longrightarrow>
      validate_and_fix_query (JDict kvs) =
        Inr (JDict [(''aggregate'', JBool True), (''pipeline'', JList [JDict kvs])])) \<and>
   (\<not> (has_key ''$match'' kvs \<or> has_key ''$group'' kvs \<or> has_key ''$sort'' kvs) \<longrightarrow>
      validate_and_fix_query (JDict kvs) = Inr (JDict kvs))"
  by simp

theorem wrap_three_stages_only_witness:
  "validate_and_fix_query (JDict [(''$group'', JDict [(''_id'', JStr ''$departmentName'')])]) =
     Inr (JDict [(''aggregate'', JBool True),
                 (''pipeline'', JList [JDict [(''$group'', JDict [(''_id'', JStr ''$departmentName'')])]])]) \<and>
   validate_and_fix_query (JDict [(''$project'', JDict [(''departmentName'', JInt 1)])]) =
     Inr (JDict [(''$project'', JDict [(''departmentName'', JInt 1)])])"
  using wrap_three_stages_only [of "[(''$group'', JDict [(''_id'', JStr ''$departmentName'')])]"]
    wrap_three_stages_only [of "[(''$project'', JDict [(''departmentName'', JInt 1)])]"]
  by (simp add: has_key_def)

section \<open>Renaming: strings\<close>

lemma lower_char_not_upper: "\<not> is_upper (lower_char c)"
  by (auto simp: lower_char_def is_upper_def)

lemma lower_char_fix: "\<not> is_upper c \<Longrightarrow> lower_char c = c"
  by (simp add: lower_char_def)

lemma no_upper_lower: "no_upper (lower s)"
  by (induction s) (simp_all add: no_upper_def lower_def lower_char_not_upper)

lemma lower_fix: "no_upper s \<Longrightarrow> lower s = s"
  by (induction s) (simp_all add: no_upper_def lower_def lower_char_fix)

lemma sub_word_run_fix: "no_upper s \<Longrightarrow> sub_word_run s = s"
  by (induction s rule: sub_word_run.induct) (simp_all add: no_upper_def)

lemma sub_lower_upper_fix: "no_upper s \<Longrightarrow> sub_lower_upper s = s"
  by (induction s rule: sub_lower_upper.induct) (simp_all add: no_upper_def)

lemma convert_fix: "no_upper s \<Longrightarrow> convert_to_snake_case s = s"
  by (simp add: convert_to_snake_case_def sub_word_run_fix sub_lower_upper_fix lower_fix)

lemma no_upper_convert: "no_upper (convert_to_snake_case s)"
  by (simp add: convert_to_snake_case_def no_upper_lower)

lemma table_facts:
  "list_all (\<lambda>(k, c). \<not> no_upper k \<and> no_upper c \<and> \<not> startswith_sigil c) field_mappings_items"
  by code_simp

lemma field_mappings_SomeD:
  assumes "field_mappings k = Some c"
  shows "\<not> no_upper k" and "no_upper c" and "\<not> startswith_sigil c"
proof -
  from assms have "(k, c) \<in> set field_mappings_items"
    by (simp add: field_mappings_def map_of_SomeD)
  with table_facts show "\<not> no_upper k" and "no_upper c" and "\<not> startswith_sigil c"
    by (auto simp: list_all_iff)
qed

lemma field_mappings_no_upper: "no_upper s \<Longrightarrow> field_mappings s = None"
  using field_mappings_SomeD(1) by (cases "field_mappings s") auto

lemma no_upper_get_mapping: "no_upper (get_mapping s)"
  by (auto simp: get_mapping_def no_upper_convert field_mappings_SomeD(2) split: option.splits)

lemma get_mapping_fix: "no_upper s \<Longrightarrow> get_mapping s = s"
  by (simp add: get_mapping_def field_mappings_no_upper convert_fix)

lemma get_mapping_idem: "get_mapping (get_mapping s) = get_mapping s"
  by (simp add: get_mapping_fix no_upper_get_mapping)

lemma new_key_idem: "new_key (new_key k) = new_key k"
  by (simp add: new_key_def get_mapping_idem)

section \<open>Renaming: building the new dict\<close>

lemma keys_dict_set:
  "map fst (dict_set d k v) = (if k \<in> set (map fst d) then map fst d else map fst d @ [k])"
  by (induction d) force+

lemma set_keys_dict_set: "set (map fst (dict_set d k v)) = insert k (set (map fst d))"
  by (auto simp: keys_dict_set)

lemma set_dict_set: "set (dict_set d k v) \<subseteq> insert (k, v) (set d)"
  by (induction d) (auto split: if_splits)

lemma map_of_dict_set: "map_of (dict_set d k v) = (map_of d)(k \<mapsto> v)"
  by (induction d) auto

lemma distinct_dict_set: "distinct (map fst d) \<Longrightarrow> distinct (map fst (dict_set d k v))"
  by (simp add: keys_dict_set)

lemma keys_fold:
  "set (map fst (fold (\<lambda>(key, v) d. dict_set d (g key) (h v)) kvs acc)) =
     set (map fst acc) \<union> g ` set (map fst kvs)"
proof (induction kvs arbitrary: acc)
  case Nil
  show ?case by simp
next
  case (Cons p kvs)
  obtain key v where p: "p = (key, v)" by (cases p)
  show ?case
    unfolding p using Cons.IH [of "dict_set acc (g key) (h v)"]
    by (simp add: set_keys_dict_set del: set_map)
qed

lemma distinct_fold:
  "distinct (map fst acc) \<Longrightarrow>
     distinct (map fst (fold (\<lambda>(key, v) d. dict_set d (g key) (h v)) kvs acc))"
  by (induction kvs arbitrary: acc) (auto simp: distinct_dict_set)

lemma set_fold:
  "set (fold (\<lambda>(key, v) d. dict_set d (g key) (h v)) kvs acc) \<subseteq>
     set acc \<union> (\<lambda>(key, v). (g key, h v)) ` set kvs"
proof (induction kvs arbitrary: acc)
  case Nil
  show ?case by simp
next
  case (Cons p kvs)
  obtain key v where p: "p = (key, v)" by (cases p)
  have "set (fold (\<lambda>(key, v) d. dict_set d (g key) (h v)) kvs (dict_set acc (g key) (h v)))
      \<subseteq> set (dict_set acc (g key) (h v)) \<union> (\<lambda>(key, v). (g key, h v)) ` set kvs"
    by (rule Cons.IH)
  with set_dict_set [of acc "g key" "h v"] show ?case
    unfolding p by auto
qed

lemma map_of_fold:
  "map_of (fold (\<lambda>(key, v) d. dict_set d (g key) (h v)) kvs acc) =
     map_of acc ++ map_of (rev (map (\<lambda>(key, v). (g key, h v)) kvs))"
proof (induction kvs arbitrary: acc)
  case Nil
  show ?case by simp
next
  case (Cons p kvs)
  obtain key v where p: "p = (key, v)" by (cases p)
  show ?case
    unfolding p by (simp add: Cons.IH map_of_dict_set map_add_upd_left fun_eq_iff map_add_def split: option.splits)
qed

lemma fold_dict_set_append:
  "distinct (map fst kvs) \<Longrightarrow> set (map fst kvs) \<inter> set (map fst acc) = {} \<Longrightarrow>
     fold (\<lambda>(key, v) d. dict_set d key v) kvs acc = acc @ kvs"
proof (induction kvs arbitrary: acc)
  case Nil
  show ?case by simp
next
  case (Cons p kvs)
  obtain key v where p: "p = (key, v)" by (cases p)
  have new: "dict_set acc key v = acc @ [(key, v)]" if "key \<notin> set (map fst acc)" for acc
    using that by (induction acc) auto
  from Cons.prems have fresh: "key \<notin> set (map fst acc)"
    unfolding p by auto
  from Cons.prems have "fold (\<lambda>(key, v) d. dict_set d key v) kvs (acc @ [(key, v)]) =
      (acc @ [(key, v)]) @ kvs"
    unfolding p by (intro Cons.IH) auto
  with fresh show ?case
    unfolding p by (simp add: new)
qed

lemma fix_fields_keeps_kind:
  "is_dict (fix_fields t) = is_dict t" "is_list (fix_fields t) = is_list t"
  "(\<exists>s. fix_fields t = JStr s) = (\<exists>s. t = JStr s)"
  by (cases t; simp)+

lemma fix_ref_fix_fields: "fix_ref (fix_fields (fix_ref v)) = fix_fields (fix_ref v)"
proof (cases v)
  case (JStr s)
  then show ?thesis
    by (simp add: fix_ref_def startswith_sigil_def get_mapping_idem)
qed (simp_all add: fix_ref_def)

lemma fold_fixed_items:
  assumes "distinct (map fst items)"
    and "\<And>k v. (k, v) \<in> set items \<Longrightarrow> g k = k \<and> h v = v"
  shows "fold (\<lambda>(key, v) d. dict_set d (g key) (h v)) items [] = items"
proof -
  have "fold (\<lambda>(key, v) d. dict_set d (g key) (h v)) items [] =
      fold (\<lambda>(key, v) d. dict_set d key v) items []"
    by (rule fold_cong) (auto dest: assms(2))
  also from assms(1) have "\<dots> = [] @ items"
    by (intro fold_dict_set_append) simp_all
  finally show ?thesis by simp
qed

section \<open>Renaming: the properties\<close>

text \<open>
  C7. Renaming is idempotent: a second pass over a renamed tree changes nothing. In
  particular a renamed key and a renamed field reference are fixed by the renaming.
\<close>

lemma fix_fields_idempotent: "fix_fields (fix_fields t) = fix_fields t"
proof (induction t rule: fix_fields.induct)
  case (1 kvs)
  let ?h = "\<lambda>v. fix_fields (fix_ref v)"
  let ?out = "fold (\<lambda>(key, v) d. dict_set d (new_key key) (?h v)) kvs []"
  have "distinct (map fst ?out)"
    by (rule distinct_fold) simp
  moreover have "new_key k' = k' \<and> ?h v' = v'" if "(k', v') \<in> set ?out" for k' v'
  proof -
    from that set_fold [of new_key ?h kvs "[]"]
    obtain k v where kv: "(k, v) \<in> set kvs" and k': "k' = new_key k" and v': "v' = ?h v"
      by auto
    from kv have "fix_fields (fix_fields (fix_ref v)) = fix_fields (fix_ref v)"
      by (rule "1.IH") simp
    then show ?thesis
      by (simp add: k' v' new_key_idem fix_ref_fix_fields)
  qed
  ultimately have "fold (\<lambda>(key, v) d. dict_set d (new_key key) (?h v)) ?out [] = ?out"
    by (rule fold_fixed_items)
  then show ?case by simp
next
  case (2 xs)
  then show ?case by (simp add: map_idI)
qed simp_all

lemma fix_ref_idempotent: "fix_ref (fix_ref v) = fix_ref v"
  by (cases v) (simp_all add: fix_ref_def startswith_sigil_def get_mapping_idem)

theorem normalize_field_names_idempotent:
  "normalize_field_names (normalize_field_names t) = normalize_field_names t \<and>
   new_key (new_key k) = new_key k \<and>
   fix_ref (fix_ref v) = fix_ref v"
  by (simp add: normalize_field_names_def fix_fields_idempotent new_key_idem fix_ref_idempotent)

text \<open>
  C10. Two distinct keys of one map that are renamed to the same name leave one entry,
  which holds the value of the key that comes later; the entry count drops from two
  to one. Here \<open>departmentName\<close> and \<open>department_name\<close>, in both orders.
\<close>

theorem colliding_keys_last_wins:
  "new_key ''departmentName'' = new_key ''department_name'' \<and>
   normalize_field_names
       (JDict [(''departmentName'', JStr ''A''), (''department_name'', JStr ''B'')]) =
     JDict [(''department_name'', JStr ''B'')] \<and>
   normalize_field_names
       (JDict [(''department_name'', JStr ''B''), (''departmentName'', JStr ''A'')]) =
     JDict [(''department_name'', JStr ''A'')]"
  by code_simp

text \<open>
  C6, as stated: after renaming, every key without the sigil is in snake case, whatever
  characters the input key has. The key \<open>unit price\<close> is renamed to itself, with its
  space.
\<close>

theorem snake_case_keys_counterexample:
  "\<not> all_keys (\<lambda>k. \<not> startswith_sigil k \<longrightarrow> is_snake_case k)
       (normalize_field_names (JDict [(''unit price'', JInt 1)]))"
  by code_simp

lemma lower_char_word: "is_word_char c \<Longrightarrow> is_lower (lower_char c) \<or> is_digit (lower_char c) \<or> lower_char c = CHR ''_''"
  by (auto simp: is_word_char_def lower_char_def is_upper_def is_lower_def is_digit_def)

lemma set_sub_word_run: "set (sub_word_run s) \<subseteq> insert CHR ''_'' (set s)"
proof (induction s rule: sub_word_run.induct)
  case (3 c u rest)
  have "set (takeWhile is_lower rest) \<subseteq> set rest" "set (dropWhile is_lower rest) \<subseteq> set rest"
    by (auto dest: set_takeWhileD set_dropWhileD)
  with 3 show ?case by (auto split: if_splits)
qed simp_all

lemma set_sub_lower_upper: "set (sub_lower_upper s) \<subseteq> insert CHR ''_'' (set s)"
  by (induction s rule: sub_lower_upper.induct) auto

lemma is_snake_case_convert:
  assumes "list_all is_word_char s"
  shows "is_snake_case (convert_to_snake_case s)"
proof -
  have "set (sub_lower_upper (sub_word_run s)) \<subseteq> insert CHR ''_'' (set s)"
    using set_sub_lower_upper [of "sub_word_run s"] set_sub_word_run [of s] by auto
  with assms have "list_all is_word_char (sub_lower_upper (sub_word_run s))"
    by (auto simp: list_all_iff is_word_char_def)
  then show ?thesis
    by (auto simp: convert_to_snake_case_def lower_def is_snake_case_def list_all_iff
        dest: lower_char_word)
qed

lemma table_snake: "list_all (\<lambda>(k, c). is_snake_case c) field_mappings_items"
  by code_simp

lemma is_snake_case_get_mapping:
  "list_all is_word_char s \<Longrightarrow> is_snake_case (get_mapping s)"
proof (cases "field_mappings s")
  case None
  assume "list_all is_word_char s"
  with None show ?thesis by (simp add: get_mapping_def is_snake_case_convert)
next
  case (Some c)
  then have "(s, c) \<in> set field_mappings_items"
    by (simp add: field_mappings_def map_of_SomeD)
  with table_snake have "is_snake_case c" by (auto simp: list_all_iff)
  with Some show ?thesis by (simp add: get_mapping_def)
qed

lemma all_keys_fix_ref: "all_keys P (fix_ref v) = all_keys P v"
  by (cases v) (simp_all add: fix_ref_def)

lemma all_keys_fix_fields:
  assumes PQ: "\<And>k. P k \<Longrightarrow> Q (new_key k)"
  shows "all_keys P t \<Longrightarrow> all_keys Q (fix_fields t)"
proof (induction t rule: fix_fields.induct)
  case (1 kvs)
  let ?h = "\<lambda>v. fix_fields (fix_ref v)"
  have "Q k' \<and> all_keys Q v'"
    if "(k', v') \<in> set (fold (\<lambda>(key, v) d. dict_set d (new_key key) (?h v)) kvs [])" for k' v'
  proof -
    from that set_fold [of new_key ?h kvs "[]"]
    obtain k v where kv: "(k, v) \<in> set kvs" and k': "k' = new_key k" and v': "v' = ?h v"
      by auto
    from kv "1.prems" have "P k" and "all_keys P (fix_ref v)"
      by (auto simp: all_keys_fix_ref)
    with kv "1.IH" [of "(k, v)" k v] PQ show ?thesis
      by (simp add: k' v')
  qed
  then show ?case by auto
next
  case (2 xs)
  then show ?case by auto
qed simp_all

text \<open>
  C6, amended: no key without the sigil has an upper-case letter after renaming; and
  where every such key of the input consists of letters, digits and underscores, every
  such key of the output consists of lower-case letters, digits and underscores. Other
  characters of a key are kept as they are.
\<close>

theorem renamed_keys_lower_case:
  "all_keys (\<lambda>k. \<not> startswith_sigil k \<longrightarrow> no_upper k) (normalize_field_names t) \<and>
   (all_keys (\<lambda>k. \<not> startswith_sigil k \<longrightarrow> list_all is_word_char k) t \<longrightarrow>
    all_keys (\<lambda>k. \<not> startswith_sigil k \<longrightarrow> is_snake_case k) (normalize_field_names t))"
proof -
  have "all_keys (\<lambda>k. True) t"
    by (induction t rule: fix_fields.induct) (auto simp: all_keys_fix_ref)
  then have "all_keys (\<lambda>k. \<not> startswith_sigil k \<longrightarrow> no_upper k) (fix_fields t)"
    by (rule all_keys_fix_fields [rotated]) (simp add: new_key_def no_upper_get_mapping)
  moreover have "all_keys (\<lambda>k. \<not> startswith_sigil k \<longrightarrow> is_snake_case k) (fix_fields t)"
    if "all_keys (\<lambda>k. \<not> startswith_sigil k \<longrightarrow> list_all is_word_char k) t"
    using that
    by (rule all_keys_fix_fields [rotated]) (simp add: new_key_def is_snake_case_get_mapping)
  ultimately show ?thesis
    by (simp add: normalize_field_names_def)
qed

theorem renamed_keys_lower_case_witness:
  "all_keys (\<lambda>k. \<not> startswith_sigil k \<longrightarrow> list_all is_word_char k)
     (JDict [(''$match'', JDict [(''HTTPStatus2'', JList [JDict [(''fooBar'', JNull)]])])]) \<and>
   all_keys (\<lambda>k. \<not> startswith_sigil k \<longrightarrow> is_snake_case k)
     (normalize_field_names
       (JDict [(''$match'', JDict [(''HTTPStatus2'', JList [JDict [(''fooBar'', JNull)]])])]))"
proof -
  let ?t = "JDict [(''$match'', JDict [(''HTTPStatus2'', JList [JDict [(''fooBar'', JNull)]])])]"
  have "all_keys (\<lambda>k. \<not> startswith_sigil k \<longrightarrow> list_all is_word_char k) ?t"
    by code_simp
  with renamed_keys_lower_case [of ?t] show ?thesis by simp
qed

text \<open>
  C8, as stated: every key with the sigil, of every map of the input, is found unchanged
  at the same position of the output. In the input below the map under \<open>departmentName\<close>
  has the key \<open>$gt\<close>; the later key \<open>department_name\<close> takes the same new name, its
  value replaces that map, and the output has no key \<open>$gt\<close> at all.
\<close>

theorem operator_key_dropped_counterexample:
  "wf_json (JDict [(''departmentName'', JDict [(''$gt'', JInt 1)]),
                   (''department_name'', JDict [(''$lt'', JInt 2)])]) \<and>
   walk (JDict [(''departmentName'', JDict [(''$gt'', JInt 1)]),
                (''department_name'', JDict [(''$lt'', JInt 2)])]) [Key ''departmentName''] =
     Some (JDict [(''$gt'', JInt 1)]) \<and>
   has_key ''$gt'' [(''$gt'', JInt 1)] \<and> startswith_sigil ''$gt'' \<and>
   normalize_field_names
       (JDict [(''departmentName'', JDict [(''$gt'', JInt 1)]),
               (''department_name'', JDict [(''$lt'', JInt 2)])]) =
     JDict [(''department_name'', JDict [(''$lt'', JInt 2)])] \<and>
   walk (normalize_field_names
       (JDict [(''departmentName'', JDict [(''$gt'', JInt 1)]),
               (''department_name'', JDict [(''$lt'', JInt 2)])]))
     (map renamed_step [Key ''departmentName'']) = Some (JDict [(''$lt'', JInt 2)]) \<and>
   \<not> has_key ''$gt'' [(''$lt'', JInt 2)]"
  by code_simp

lemma map_of_renamed_last:
  assumes "map_of kvs k = Some v"
    and "\<forall>k' \<in> set (keys_after k kvs). g k' \<noteq> g k"
  shows "map_of (rev (map (\<lambda>(key, v). (g key, h v)) kvs)) (g k) = Some (h v)"
  using assms
proof (induction kvs)
  case Nil
  then show ?case by simp
next
  case (Cons p kvs)
  obtain k0 v0 where p: "p = (k0, v0)" by (cases p)
  show ?case
  proof (cases "k0 = k")
    case True
    with Cons.prems have "v0 = v" and "\<forall>k' \<in> set (map fst kvs). g k' \<noteq> g k"
      unfolding p by simp_all
    then have "map_of (rev (map (\<lambda>(key, v). (g key, h v)) kvs)) (g k) = None"
      by (force simp: map_of_eq_None_iff)
    with True \<open>v0 = v\<close> show ?thesis
      unfolding p by (simp add: map_add_def)
  next
    case False
    with Cons.prems have "map_of (rev (map (\<lambda>(key, v). (g key, h v)) kvs)) (g k) = Some (h v)"
      unfolding p by (intro Cons.IH) simp_all
    then show ?thesis
      unfolding p by (simp add: map_add_def)
  qed
qed

lemma child_fix_fields:
  assumes "child t s = Some t'" and "unshadowed t s" and "is_dict t' \<or> is_list t'"
  shows "child (fix_fields t) (renamed_step s) = Some (fix_fields t')"
proof (cases t)
  case (JDict kvs)
  with assms(1) obtain k where s: "s = Key k" and look: "map_of kvs k = Some t'"
    by (cases s) simp_all
  from assms(2) have "\<forall>k' \<in> set (keys_after k kvs). new_key k' \<noteq> new_key k"
    by (simp add: JDict s)
  with look have "map_of (rev (map (\<lambda>(key, v). (new_key key, fix_fields (fix_ref v))) kvs))
      (new_key k) = Some (fix_fields (fix_ref t'))"
    by (rule map_of_renamed_last)
  moreover from assms(3) have "fix_ref t' = t'"
    by (cases t') (simp_all add: fix_ref_def)
  ultimately show ?thesis
    by (simp add: JDict s map_of_fold)
next
  case (JList xs)
  with assms(1) show ?thesis
    by (cases s) (simp_all split: if_splits)
qed (use assms(1) in simp_all)

lemma walk_from_container:
  "walk t p = Some t' \<Longrightarrow> is_dict t' \<or> is_list t' \<Longrightarrow> is_dict t \<or> is_list t"
  by (cases p; cases t) simp_all

lemma walk_fix_fields:
  "walk t p = Some t' \<Longrightarrow> clear_path t p \<Longrightarrow> is_dict t' \<or> is_list t' \<Longrightarrow>
     walk (fix_fields t) (map renamed_step p) = Some (fix_fields t')"
proof (induction p arbitrary: t)
  case Nil
  then show ?case by simp
next
  case (Cons s p)
  from Cons.prems(1) obtain t1 where step: "child t s = Some t1" and rest: "walk t1 p = Some t'"
    by (auto split: option.splits)
  from rest Cons.prems(3) have "is_dict t1 \<or> is_list t1"
    by (rule walk_from_container)
  with step Cons.prems(2) have "child (fix_fields t) (renamed_step s) = Some (fix_fields t1)"
    by (intro child_fix_fields) simp_all
  moreover from rest Cons.prems(2,3) step
  have "walk (fix_fields t1) (map renamed_step p) = Some (fix_fields t')"
    by (intro Cons.IH) simp_all
  ultimately show ?case by simp
qed

lemma operator_key_kept:
  assumes "has_key k kvs" and "startswith_sigil k"
  shows "\<exists>kvs'. fix_fields (JDict kvs) = JDict kvs' \<and> has_key k kvs'"
proof -
  from assms have "new_key k \<in> new_key ` set (map fst kvs)"
    unfolding has_key_def by (intro imageI)
  with assms(2) show ?thesis
    by (simp add: has_key_def keys_fold new_key_def del: set_map)
qed

text \<open>
  C8, amended: a key with the sigil is never renamed, and it is found unchanged at the
  renamed position of its map, provided that the path to the map is clear: no key on
  the path is followed, in its own map, by a key that is renamed to the same name.
\<close>

theorem operator_keys_preserved:
  assumes "walk t p = Some (JDict kvs)" and "clear_path t p"
    and "has_key k kvs" and "startswith_sigil k"
  shows "\<exists>kvs'. walk (normalize_field_names t) (map renamed_step p) = Some (JDict kvs') \<and>
           has_key k kvs'"
proof -
  from assms(1,2) have "walk (fix_fields t) (map renamed_step p) = Some (fix_fields (JDict kvs))"
    by (rule walk_fix_fields) simp
  with operator_key_kept [OF assms(3,4)] show ?thesis
    by (auto simp: normalize_field_names_def)
qed

theorem operator_keys_preserved_witness:
  "walk (JDict [(''aggregate'', JBool True), (''pipeline'',
          JList [JDict [(''$match'', JDict [(''departmentName'', JDict [(''$gt'', JInt 1)])])]])])
      [Key ''pipeline'', Index 0, Key ''$match'', Key ''departmentName''] =
     Some (JDict [(''$gt'', JInt 1)]) \<and>
   clear_path (JDict [(''aggregate'', JBool True), (''pipeline'',
          JList [JDict [(''$match'', JDict [(''departmentName'', JDict [(''$gt'', JInt 1)])])]])])
      [Key ''pipeline'', Index 0, Key ''$match'', Key ''departmentName''] \<and>
   has_key ''$gt'' [(''$gt'', JInt 1)] \<and> startswith_sigil ''$gt'' \<and>
   (\<exists>kvs'. walk (normalize_field_names (JDict [(''aggregate'', JBool True), (''pipeline'',
          JList [JDict [(''$match'', JDict [(''departmentName'', JDict [(''$gt'', JInt 1)])])]])]))
        (map renamed_step [Key ''pipeline'', Index 0, Key ''$match'', Key ''departmentName'']) =
      Some (JDict kvs') \<and> has_key ''$gt'' kvs')"
proof -
  let ?t = "JDict [(''aggregate'', JBool True), (''pipeline'',
          JList [JDict [(''$match'', JDict [(''departmentName'', JDict [(''$gt'', JInt 1)])])]])]"
  let ?p = "[Key ''pipeline'', Index 0, Key ''$match'', Key ''departmentName'']"
  have reach: "walk ?t ?p = Some (JDict [(''$gt'', JInt 1)])"
    by code_simp
  have clear: "clear_path ?t ?p"
    by code_simp
  have key: "has_key ''$gt'' [(''$gt'', JInt 1)]"
    by code_simp
  have sigil: "startswith_sigil ''$gt''"
    by code_simp
  from operator_keys_preserved [OF reach clear key sigil] reach clear key sigil
  show ?thesis by blast
qed

text \<open>
  C9, as stated: a key without the sigil takes its entry in the table, and a key absent
  from the table is converted as the description says, with an underscore before each
  upper-case letter that starts a new capitalised word run. The key \<open>a\<newline>Bc\<close>, with a
  line break before the \<open>B\<close>, is absent from the table; by the description it becomes
  \<open>a\<newline>_bc\<close>, and the code renames it to \<open>a\<newline>bc\<close>: the first pattern's dot does not
  match a line break.
\<close>

theorem generic_conversion_line_break_counterexample:
  "\<not> startswith_sigil ''a\<newline>Bc'' \<and> field_mappings ''a\<newline>Bc'' = None \<and>
   worded_conversion ''a\<newline>Bc'' = ''a\<newline>_bc'' \<and>
   normalize_field_names (JDict [(''a\<newline>Bc'', JInt 1)]) = JDict [(''a\<newline>bc'', JInt 1)]"
  by code_simp

lemma not_upper_lower: "is_lower c \<Longrightarrow> \<not> is_upper c" "is_digit c \<Longrightarrow> \<not> is_upper c"
  by (auto simp: is_lower_def is_upper_def is_digit_def)

lemma follows_lower_or_digit_simps:
  "follows_lower_or_digit None c rest = False"
  "follows_lower_or_digit (Some p) c rest = (is_upper c \<and> (is_lower p \<or> is_digit p))"
  by (simp_all add: follows_lower_or_digit_def)

lemma insert_before_None_upper:
  "(case prev of None \<Rightarrow> True | Some p \<Rightarrow> \<not> (is_lower p \<or> is_digit p)) \<Longrightarrow>
     insert_before follows_lower_or_digit prev s = insert_before follows_lower_or_digit None s"
  by (cases s) (auto simp: follows_lower_or_digit_simps split: option.splits)

lemma sub_lower_upper_positions:
  "sub_lower_upper s = insert_before follows_lower_or_digit None s"
proof (induction s rule: sub_lower_upper.induct)
  case 1
  show ?case by simp
next
  case (2 c)
  show ?case by (simp add: follows_lower_or_digit_simps)
next
  case (3 c u rest)
  show ?case
  proof (cases "(is_lower c \<or> is_digit c) \<and> is_upper u")
    case True
    then have "\<not> (is_lower u \<or> is_digit u)"
      using not_upper_lower by blast
    then have "insert_before follows_lower_or_digit (Some u) rest =
        insert_before follows_lower_or_digit None rest"
      by (intro insert_before_None_upper) simp
    with True 3 show ?thesis
      by (simp add: follows_lower_or_digit_simps)
  next
    case False
    have "insert_before follows_lower_or_digit (Some c) (u # rest) =
        insert_before follows_lower_or_digit None (u # rest)"
      if "\<not> (is_lower c \<or> is_digit c)"
      using that by (intro insert_before_None_upper) simp
    moreover have "insert_before follows_lower_or_digit (Some c) (u # rest) =
        insert_before follows_lower_or_digit None (u # rest)"
      if "\<not> is_upper u"
      using that by (simp add: follows_lower_or_digit_simps)
    ultimately have "insert_before follows_lower_or_digit (Some c) (u # rest) =
        insert_before follows_lower_or_digit None (u # rest)"
      using False by blast
    with False 3 show ?thesis
      by (auto simp: follows_lower_or_digit_simps)
  qed
qed

lemma starts_lower_iff:
  "takeWhile is_lower rest \<noteq> [] \<longleftrightarrow> (case rest of [] \<Rightarrow> False | n # _ \<Rightarrow> is_lower n)"
  by (cases rest) simp_all

lemma underscore_due_simps:
  "underscore_due None c rest = False"
  "underscore_due (Some p) c rest =
     (is_upper c \<and> (is_lower p \<or> is_digit p \<or>
        p \<noteq> CHR 0x0A \<and> takeWhile is_lower rest \<noteq> []))"
  unfolding starts_lower_iff
  by (auto simp: underscore_due_def follows_lower_or_digit_def starts_word_run_def)

lemma insert_before_lower_run:
  assumes "\<And>prev c rest. due prev c rest \<Longrightarrow> is_upper c"
    and "list_all is_lower run" and "run \<noteq> []"
  shows "insert_before due prev (run @ s) = run @ insert_before due (Some (last run)) s"
  using assms(2,3)
proof (induction run arbitrary: prev)
  case Nil
  then show ?case by simp
next
  case (Cons c run)
  from Cons.prems have "\<not> due prev c (run @ s)"
    using assms(1) not_upper_lower(1) by auto
  with Cons show ?case
    by (cases "run = []") simp_all
qed


lemma underscore_class:
  "\<not> is_upper CHR ''_''" "\<not> is_lower CHR ''_''" "\<not> is_digit CHR ''_''"
  by (simp_all add: is_upper_def is_lower_def is_digit_def)

lemma resume_after_lower:
  "is_lower l \<Longrightarrow>
     (case s of [] \<Rightarrow> []
      | c # rest \<Rightarrow> (if follows_lower_or_digit (Some l) c rest then [CHR ''_'', c] else [c]) @
          insert_before underscore_due (Some c) rest) =
     insert_before underscore_due (Some l) s"
  by (cases s) (simp_all add: follows_lower_or_digit_simps underscore_due_simps)

lemma positions_after_word_run:
  "insert_before follows_lower_or_digit prev (sub_word_run s) =
     (case s of [] \<Rightarrow> []
      | c # rest \<Rightarrow> (if follows_lower_or_digit prev c rest then [CHR ''_'', c] else [c]) @
          insert_before underscore_due (Some c) rest)"
proof (induction s arbitrary: prev rule: sub_word_run.induct)
  case 1
  show ?case by simp
next
  case (2 c)
  show ?case by simp
next
  case (3 c u rest)
  let ?run = "takeWhile is_lower rest" and ?rest' = "dropWhile is_lower rest"
  define first where "first = follows_lower_or_digit prev c []"
  have first: "follows_lower_or_digit prev c xs = first" for xs
    by (simp add: first_def follows_lower_or_digit_def)
  show ?case
  proof (cases "c \<noteq> CHR 0x0A \<and> is_upper u \<and> ?run \<noteq> []")
    case True
    then have run: "list_all is_lower ?run" "?run \<noteq> []"
      by (auto simp: list_all_iff dest: set_takeWhileD)
    then have last: "is_lower (last ?run)"
      using last_in_set [of ?run] by (auto simp: list_all_iff simp del: last_in_set)
    from True have matched: "sub_word_run (c # u # rest) =
        c # CHR ''_'' # u # ?run @ sub_word_run ?rest'"
      by simp
    have code: "insert_before follows_lower_or_digit (Some u) (?run @ sub_word_run ?rest') =
        ?run @ insert_before follows_lower_or_digit (Some (last ?run)) (sub_word_run ?rest')"
      using run by (intro insert_before_lower_run) (simp_all add: follows_lower_or_digit_def)
    have "insert_before underscore_due (Some u) (?run @ ?rest') =
        ?run @ insert_before underscore_due (Some (last ?run)) ?rest'"
      using run by (intro insert_before_lower_run)
        (auto simp: underscore_due_def follows_lower_or_digit_def starts_word_run_def)
    then have spec: "insert_before underscore_due (Some u) rest =
        ?run @ insert_before underscore_due (Some (last ?run)) ?rest'"
      by simp
    have resume: "insert_before follows_lower_or_digit (Some (last ?run)) (sub_word_run ?rest') =
        insert_before underscore_due (Some (last ?run)) ?rest'"
      by (simp only: "3.IH"(1) [OF True] resume_after_lower [OF last])
    from True have due: "underscore_due (Some c) u rest"
      by (simp add: underscore_due_simps)
    have "insert_before follows_lower_or_digit prev (sub_word_run (c # u # rest)) =
        (if first then [CHR ''_'', c] else [c]) @
        CHR ''_'' # u # ?run @ insert_before underscore_due (Some (last ?run)) ?rest'"
      unfolding matched
      by (simp add: first code resume follows_lower_or_digit_simps underscore_class)
    also have "\<dots> = (if first then [CHR ''_'', c] else [c]) @
        insert_before underscore_due (Some c) (u # rest)"
      using due by (simp add: spec)
    finally show ?thesis by (simp only: first list.case)
  next
    case False
    then have unmatched: "sub_word_run (c # u # rest) = c # sub_word_run (u # rest)"
      by auto
    from False have "underscore_due (Some c) u rest = follows_lower_or_digit (Some c) u rest"
      by (auto simp: follows_lower_or_digit_simps underscore_due_simps)
    then show ?thesis
      by (simp only: unmatched insert_before.simps "3.IH"(2) [OF False] list.case first)
  qed
qed

lemma convert_to_snake_case_positions:
  "convert_to_snake_case text = generic_conversion text"
proof -
  have "sub_lower_upper (sub_word_run text) = insert_before underscore_due None text"
    by (cases "text")
      (simp_all add: sub_lower_upper_positions positions_after_word_run
        follows_lower_or_digit_simps underscore_due_simps)
  then show ?thesis
    by (simp add: convert_to_snake_case_def generic_conversion_def)
qed

lemma insert_before_in_line:
  "prev \<noteq> Some (CHR 0x0A) \<Longrightarrow> CHR 0x0A \<notin> set s \<Longrightarrow>
     insert_before underscore_due prev s = insert_before worded_underscore_due prev s"
  by (induction s arbitrary: prev) (auto simp: underscore_due_def worded_underscore_due_def)

lemma conversion_without_line_break:
  "CHR 0x0A \<notin> set key \<Longrightarrow> convert_to_snake_case key = worded_conversion key"
  by (simp add: convert_to_snake_case_positions generic_conversion_def worded_conversion_def
      insert_before_in_line)

lemma new_key_resolved: "new_key k = resolved_name k"
  by (simp add: new_key_def get_mapping_def resolved_name_def convert_to_snake_case_positions
      split: option.splits)

lemma renamed_step_resolved: "renamed_step s = resolved_step s"
  by (cases s) (simp_all add: new_key_resolved)

text \<open>
  C9, amended: the keys of a renamed map are the resolved names of its keys: a key of
  the table takes its entry, before any conversion, and only a key absent from the
  table is converted, with an underscore before each upper-case letter that follows a
  lower-case letter or a digit, or that starts a new capitalised word run and does not
  come right after a line break, and the whole lower-cased. This holds of a map handed
  to the renaming, and of every map inside a tree that is reached by a clear path; that
  map is found at the resolved path.
\<close>

theorem known_mapping_precedence:
  "(\<exists>out. normalize_field_names (JDict kvs) = JDict out \<and>
      set (map fst out) = resolved_name ` set (map fst kvs)) \<and>
   (walk t p = Some (JDict kvs) \<and> clear_path t p \<longrightarrow>
      (\<exists>out. walk (normalize_field_names t) (map resolved_step p) = Some (JDict out) \<and>
         set (map fst out) = resolved_name ` set (map fst kvs)))"
proof -
  have "new_key = resolved_name"
    by (simp add: fun_eq_iff new_key_resolved)
  then have keys: "set (map fst (fold (\<lambda>(key, v) d. dict_set d (new_key key) (fix_fields (fix_ref v)))
        kvs [])) = resolved_name ` set (map fst kvs)"
    by (simp add: keys_fold del: set_map)
  then have here: "\<exists>out. normalize_field_names (JDict kvs) = JDict out \<and>
      set (map fst out) = resolved_name ` set (map fst kvs)"
    by (simp add: normalize_field_names_def del: set_map)
  have there: "\<exists>out. walk (normalize_field_names t) (map resolved_step p) = Some (JDict out) \<and>
      set (map fst out) = resolved_name ` set (map fst kvs)"
    if reach: "walk t p = Some (JDict kvs)" and clear: "clear_path t p"
  proof -
    from reach clear
    have "walk (fix_fields t) (map renamed_step p) = Some (fix_fields (JDict kvs))"
      by (rule walk_fix_fields) simp
    moreover have "map renamed_step p = map resolved_step p"
      by (simp add: renamed_step_resolved)
    ultimately show ?thesis
      using keys by (simp add: normalize_field_names_def del: set_map)
  qed
  from here there show ?thesis by blast
qed

theorem known_mapping_precedence_witness:
  "walk (JDict [(''$match'', JDict [(''supplierCode'', JStr ''S1''),
          (''HTTPResponse2XX'', JDict [(''orderID'', JInt 1), (''supplierName'', JInt 2)])])])
      [Key ''$match'', Key ''HTTPResponse2XX''] =
     Some (JDict [(''orderID'', JInt 1), (''supplierName'', JInt 2)]) \<and>
   clear_path (JDict [(''$match'', JDict [(''supplierCode'', JStr ''S1''),
          (''HTTPResponse2XX'', JDict [(''orderID'', JInt 1), (''supplierName'', JInt 2)])])])
      [Key ''$match'', Key ''HTTPResponse2XX''] \<and>
   map resolved_step [Key ''$match'', Key ''HTTPResponse2XX''] =
     [Key ''$match'', Key ''http_response2_xx''] \<and>
   resolved_name ` set (map fst [(''orderID'', JInt 1), (''supplierName'', JInt 2)]) =
     {''order_id'', ''supplier_name''} \<and>
   (\<exists>out. walk (normalize_field_names (JDict [(''$match'', JDict [(''supplierCode'', JStr ''S1''),
          (''HTTPResponse2XX'', JDict [(''orderID'', JInt 1), (''supplierName'', JInt 2)])])]))
        [Key ''$match'', Key ''http_response2_xx''] = Some (JDict out) \<and>
      set (map fst out) = {''order_id'', ''supplier_name''}) \<and>
   normalize_field_names (JDict [(''$match'', JDict [(''supplierCode'', JStr ''S1''),
          (''HTTPResponse2XX'', JDict [(''orderID'', JInt 1), (''supplierName'', JInt 2)])])]) =
     JDict [(''$match'', JDict [(''supplier_code'', JStr ''S1''),
          (''http_response2_xx'', JDict [(''order_id'', JInt 1), (''supplier_name'', JInt 2)])])]"
proof -
  let ?t = "JDict [(''$match'', JDict [(''supplierCode'', JStr ''S1''),
          (''HTTPResponse2XX'', JDict [(''orderID'', JInt 1), (''supplierName'', JInt 2)])])]"
  let ?p = "[Key ''$match'', Key ''HTTPResponse2XX'']"
  let ?kvs = "[(''orderID'', JInt 1), (''supplierName'', JInt 2)]"
  have reach: "walk ?t ?p = Some (JDict ?kvs)"
    by code_simp
  have clear: "clear_path ?t ?p"
    by code_simp
  have path: "map resolved_step ?p = [Key ''$match'', Key ''http_response2_xx'']"
    by code_simp
  have names: "resolved_name ` set (map fst ?kvs) = {''order_id'', ''supplier_name''}"
    by code_simp
  have whole: "normalize_field_names ?t =
     JDict [(''$match'', JDict [(''supplier_code'', JStr ''S1''),
          (''http_response2_xx'', JDict [(''order_id'', JInt 1), (''supplier_name'', JInt 2)])])]"
    by code_simp
  from known_mapping_precedence [of ?kvs ?t ?p] reach clear
  have "\<exists>out. walk (normalize_field_names ?t) (map resolved_step ?p) = Some (JDict out) \<and>
      set (map fst out) = resolved_name ` set (map fst ?kvs)"
    by blast
  then have "\<exists>out. walk (normalize_field_names ?t) [Key ''$match'', Key ''http_response2_xx''] =
        Some (JDict out) \<and> set (map fst out) = {''order_id'', ''supplier_name''}"
    unfolding path names .
  with reach clear path names whole show ?thesis
    by (intro conjI)
qed

lemma fix_fields_strings: "fix_fields (JList (map JStr ss)) = JList (map JStr ss)"
  by (induction ss) simp_all

text \<open>
  C4, on the code: a string with the sigil is renamed where it is the value of a key of
  a map, and a string that is an element of a sequence is left as it is. \<open>$fooBar\<close>
  under the key \<open>$sum\<close> becomes \<open>$foo_bar\<close>; as an element of the sequence under that
  key it stays \<open>$fooBar\<close>.
\<close>

theorem field_reference_in_list_not_renamed:
  "normalize_field_names (JList (map JStr ss)) = JList (map JStr ss) \<and>
   normalize_field_names (JDict [(''total'', JDict [(''$sum'', JStr ''$fooBar'')])]) =
     JDict [(''total'', JDict [(''$sum'', JStr ''$foo_bar'')])] \<and>
   normalize_field_names (JDict [(''total'', JDict [(''$sum'', JList [JStr ''$fooBar''])])]) =
     JDict [(''total'', JDict [(''$sum'', JList [JStr ''$fooBar''])])]"
proof -
  have "normalize_field_names (JDict [(''total'', JDict [(''$sum'', JStr ''$fooBar'')])]) =
     JDict [(''total'', JDict [(''$sum'', JStr ''$foo_bar'')])]"
    by code_simp
  moreover have
    "normalize_field_names (JDict [(''total'', JDict [(''$sum'', JList [JStr ''$fooBar''])])]) =
     JDict [(''total'', JDict [(''$sum'', JList [JStr ''$fooBar''])])]"
    by code_simp
  ultimately show ?thesis
    by (simp add: normalize_field_names_def fix_fields_strings)
qed

end
